theory Spec2Isabelle
  imports Complex_Main "HOL-Library.Word" "HOL-Library.Log_Nat"
begin

section \<open>Single-precision arithmetic\<close>

text \<open>
  The library targets the AVR Arduino boards (\<open>Arduino.h\<close>, a 10-bit \<open>analogRead\<close>), where
  \<open>float\<close> and \<open>double\<close> are both IEEE 754 binary32, so that every operation of
  \<open>determine_button\<close> is one binary32 operation, rounded to nearest, ties to even. A
  finite binary32 value is a real number; the operations below compute the exact result and
  round it to 24 significant bits. The exponent is not limited: for an analog sample in
  \<open>0..1023\<close> and a button count that fits an \<open>int\<close>, the intermediate values are far
  inside the exponent range of binary32, so that neither overflow nor underflow occurs.
\<close>

definition pow2 :: "int \<Rightarrow> real" where
  "pow2 e = (if 0 \<le> e then 2 ^ nat e else 1 / 2 ^ nat (- e))"

text \<open>The binary exponent of a positive number: \<open>pow2 (ilog2 x) \<le> x < pow2 (ilog2 x + 1)\<close>.\<close>

definition ilog2 :: "real \<Rightarrow> int" where
  "ilog2 x = (if 1 \<le> x then bitlen \<lfloor>x\<rfloor> - 1 else - bitlen (\<lceil>1 / x\<rceil> - 1))"

text \<open>Round to the nearest integer, ties to the even one.\<close>

definition rne :: "real \<Rightarrow> int" where
  "rne y = (let f = \<lfloor>y\<rfloor>; r = y - of_int f in
     if r < 1 / 2 then f
     else if 1 / 2 < r then f + 1
     else if even f then f else f + 1)"

text \<open>Rounding of an exact result to binary32: 24 significant bits.\<close>

definition fl32 :: "real \<Rightarrow> real" where
  "fl32 x = (if x = 0 then 0
     else let q = pow2 (ilog2 \<bar>x\<bar> - 23) in of_int (rne (x / q)) * q)"

definition fadd :: "real \<Rightarrow> real \<Rightarrow> real" where
  "fadd x y = fl32 (x + y)"

definition fsub :: "real \<Rightarrow> real \<Rightarrow> real" where
  "fsub x y = fl32 (x - y)"

definition fmul :: "real \<Rightarrow> real \<Rightarrow> real" where
  "fmul x y = fl32 (x * y)"

definition fdiv :: "real \<Rightarrow> real \<Rightarrow> real" where
  "fdiv x y = fl32 (x / y)"

text \<open>The conversion \<open>(float)i\<close> of an \<open>int\<close>.\<close>

definition float_of_int :: "int \<Rightarrow> real" where
  "float_of_int i = fl32 (of_int i)"

text \<open>C's \<open>roundf\<close>: to the nearest integer, halfway cases away from zero.\<close>

definition roundf :: "real \<Rightarrow> real" where
  "roundf x = (if 0 \<le> x then of_int \<lfloor>x + 1 / 2\<rfloor> else - of_int \<lfloor>1 / 2 - x\<rfloor>)"

text \<open>
  The \<open>int\<close> of the AVR compiler is 16 bits wide.
\<close>

definition INT_MIN :: int where
  "INT_MIN = - 32768"

definition INT_MAX :: int where
  "INT_MAX = 32767"

text \<open>
  The conversion \<open>(int)x\<close> of a \<open>float\<close> truncates towards zero. Its behaviour is
  undefined in C when the truncated value does not fit an \<open>int\<close>: the result is \<open>None\<close>
  then.
\<close>

definition int_of_float :: "real \<Rightarrow> int option" where
  "int_of_float x =
     (let i = (if 0 \<le> x then \<lfloor>x\<rfloor> else - \<lfloor>- x\<rfloor>)
      in if INT_MIN \<le> i \<and> i \<le> INT_MAX then Some i else None)"


section \<open>The class \<open>Analog_Buttons\<close>\<close>

datatype keypad_state_t = KEYPAD_STATE_IDLE | KEYPAD_STATE_DEBOUNCING

text \<open>
  The members of the class. The two timestamps are \<open>unsigned long\<close>, 32 bits wide; the
  other members are \<open>int\<close>.
\<close>

record Analog_Buttons =
  pin :: int
  number_buttons :: int
  repeat_milliseconds :: int
  debounce_milliseconds :: int
  last_key :: int
  keypad_state :: keypad_state_t
  debounce_timestamp :: "32 word"
  repeating_timestamp :: "32 word"

definition SUPPLY_VOLTAGE :: real where
  "SUPPLY_VOLTAGE = 5"

definition DEFAULT_DEBOUNCE_TIME :: int where
  "DEFAULT_DEBOUNCE_TIME = 50"

definition DEFAULT_REPEAT_TIME :: int where
  "DEFAULT_REPEAT_TIME = 0"

text \<open>The setters \<open>repeat(int)\<close> and \<open>debounce(int)\<close> of the header.\<close>

definition set_repeat :: "int \<Rightarrow> Analog_Buttons \<Rightarrow> Analog_Buttons" where
  "set_repeat milliseconds this = this\<lparr>repeat_milliseconds := milliseconds\<rparr>"

definition set_debounce :: "int \<Rightarrow> Analog_Buttons \<Rightarrow> Analog_Buttons" where
  "set_debounce milliseconds this = this\<lparr>debounce_milliseconds := milliseconds\<rparr>"

text \<open>
  The constructor; \<open>millis\<close> is the clock reading of its one call of \<open>millis()\<close>. The
  two intervals have no value before the setters run; \<open>pinMode\<close> acts on the hardware only.
\<close>

definition construct :: "int \<Rightarrow> int \<Rightarrow> 32 word \<Rightarrow> Analog_Buttons" where
  "construct pin_number number_of_buttons millis =
     set_debounce DEFAULT_DEBOUNCE_TIME (set_repeat DEFAULT_REPEAT_TIME
       \<lparr>pin = pin_number, number_buttons = number_of_buttons,
        repeat_milliseconds = 0, debounce_milliseconds = 0,
        last_key = - 1, keypad_state = KEYPAD_STATE_IDLE,
        debounce_timestamp = millis, repeating_timestamp = millis\<rparr>)"

subsection \<open>\<open>determine_button\<close>\<close>

text \<open>\<open>voltage_i\<close> is the value that \<open>analogRead(pin)\<close> returns.\<close>

definition voltage_of :: "int \<Rightarrow> real" where
  "voltage_of voltage_i = fdiv (fmul SUPPLY_VOLTAGE (float_of_int voltage_i)) 1023"

definition button_approx :: "Analog_Buttons \<Rightarrow> int \<Rightarrow> real" where
  "button_approx this voltage_i =
     (let voltage = voltage_of voltage_i
      in fadd (fmul (fsub 1 voltage) (float_of_int (number_buttons this))) voltage)"

text \<open>
  The local \<open>button\<close> before the test for full voltage: \<open>None\<close> where the rounded
  position does not fit an \<open>int\<close>.
\<close>

definition button_rounded :: "Analog_Buttons \<Rightarrow> int \<Rightarrow> int option" where
  "button_rounded this voltage_i = int_of_float (roundf (button_approx this voltage_i))"

definition determine_button :: "Analog_Buttons \<Rightarrow> int \<Rightarrow> int option" where
  "determine_button this voltage_i =
     (case button_rounded this voltage_i of
        None \<Rightarrow> None
      | Some button \<Rightarrow> Some (if button > number_buttons this then - 1 else button))"

subsection \<open>\<open>read_key\<close>\<close>

text \<open>
  One call of \<open>read_key\<close>, which the conversion operator of the header forwards to.
  \<open>voltage_i\<close> is the analog sample of this call. \<open>read_key\<close> calls \<open>millis()\<close> once or
  twice: \<open>millis1\<close> is the reading of the first call and \<open>millis2\<close> that of the second,
  made on the two paths that return a key. The sum of an \<open>unsigned long\<close> and an \<open>int\<close> is
  computed in \<open>unsigned long\<close>, modulo \<open>2 ^ 32\<close>. The result is the returned key and the
  updated object; it is \<open>None\<close> where \<open>determine_button\<close>, which the call begins with,
  has no defined result.
\<close>

definition read_key ::
  "Analog_Buttons \<Rightarrow> int \<Rightarrow> 32 word \<Rightarrow> 32 word \<Rightarrow> (int \<times> Analog_Buttons) option" where
  "read_key this voltage_i millis1 millis2 =
     (case determine_button this voltage_i of
        None \<Rightarrow> None
      | Some key_reported \<Rightarrow> Some
         (if keypad_state this = KEYPAD_STATE_DEBOUNCING then
            if millis1 > debounce_timestamp this + word_of_int (debounce_milliseconds this) then
              (key_reported,
               this\<lparr>last_key := key_reported, repeating_timestamp := millis2,
                    keypad_state := KEYPAD_STATE_IDLE\<rparr>)
            else (- 1, this)
          else if last_key this \<noteq> key_reported then
            (- 1, this\<lparr>debounce_timestamp := millis1,
                      keypad_state := KEYPAD_STATE_DEBOUNCING\<rparr>)
          else
            let repeat_time = repeat_milliseconds this in
            if repeat_time > 0 then
              if millis1 > repeating_timestamp this + word_of_int repeat_time then
                (key_reported, this\<lparr>repeating_timestamp := millis2\<rparr>)
              else (- 1, this)
            else (- 1, this)))"

text \<open>
  The calls a sketch can make on a constructed object, and a run of them from left to
  right, collecting the keys that the polls return.
\<close>

datatype call = Poll int "32 word" "32 word" | Repeat int | Debounce int

fun run :: "Analog_Buttons \<Rightarrow> call list \<Rightarrow> (int list \<times> Analog_Buttons) option" where
  "run this [] = Some ([], this)"
| "run this (Poll voltage_i millis1 millis2 # cs) =
     (case read_key this voltage_i millis1 millis2 of
        None \<Rightarrow> None
      | Some (key, this') \<Rightarrow>
         (case run this' cs of
            None \<Rightarrow> None
          | Some (keys, this'') \<Rightarrow> Some (key # keys, this'')))"
| "run this (Repeat milliseconds # cs) = run (set_repeat milliseconds this) cs"
| "run this (Debounce milliseconds # cs) = run (set_debounce milliseconds this) cs"

text \<open>The analog samples of the polls of a run.\<close>

fun samples :: "call list \<Rightarrow> int list" where
  "samples [] = []"
| "samples (Poll voltage_i millis1 millis2 # cs) = voltage_i # samples cs"
| "samples (Repeat milliseconds # cs) = samples cs"
| "samples (Debounce milliseconds # cs) = samples cs"

text \<open>
  A run in which a button is held: every call is a poll whose sample \<open>determine_button\<close>
  reads as \<open>key\<close>.
\<close>

fun reads :: "Analog_Buttons \<Rightarrow> int \<Rightarrow> call \<Rightarrow> bool" where
  "reads this key (Poll voltage_i millis1 millis2) =
     (determine_button this voltage_i = Some key)"
| "reads this key (Repeat milliseconds) = False"
| "reads this key (Debounce milliseconds) = False"

definition held :: "Analog_Buttons \<Rightarrow> int \<Rightarrow> call list \<Rightarrow> bool" where
  "held this key cs = list_all (reads this key) cs"

subsection \<open>The resolver in exact arithmetic\<close>

text \<open>Rounding to the nearest integer, halfway cases away from zero.\<close>

definition round_half_away :: "real \<Rightarrow> int" where
  "round_half_away x = (if 0 \<le> x then \<lfloor>x + 1 / 2\<rfloor> else - \<lfloor>1 / 2 - x\<rfloor>)"

text \<open>
  The position \<open>(1 - v) * n + v\<close> on the ladder in exact arithmetic, where
  \<open>v = 5 * s / 1023\<close> is the voltage of the sample \<open>s\<close> in volts, as the code uses it.
\<close>

definition ladder_position :: "real \<Rightarrow> int \<Rightarrow> real" where
  "ladder_position n s = (let v = 5 * of_int s / 1023 in (1 - v) * n + v)"

text \<open>
  The resolver as section 4.1 of the spec words it, for comparison with
  \<open>determine_button\<close>: the voltage is divided by the supply voltage before it enters the
  position.
\<close>

definition spec_resolver :: "int \<Rightarrow> int \<Rightarrow> int" where
  "spec_resolver n s =
     (let v = 5 * of_int s / 1023;
          n_approx = (1 - v / 5) * of_int n + v / 5;
          k = round_half_away n_approx
      in if k > n then - 1 else k)"

text \<open>
  An object as the example sketch declares it (pin \<open>A0\<close>, number 14 on the Uno) with a
  given number of buttons, in a given state, for concrete instances of the theorems.
\<close>

definition sketch_state ::
  "int \<Rightarrow> keypad_state_t \<Rightarrow> int \<Rightarrow> int \<Rightarrow> int \<Rightarrow> 32 word \<Rightarrow> 32 word \<Rightarrow> Analog_Buttons" where
  "sketch_state buttons phase key repeat_ms debounce_ms debounce_ts repeating_ts =
     \<lparr>pin = 14, number_buttons = buttons, repeat_milliseconds = repeat_ms,
      debounce_milliseconds = debounce_ms, last_key = key, keypad_state = phase,
      debounce_timestamp = debounce_ts, repeating_timestamp = repeating_ts\<rparr>"


section \<open>Basic facts\<close>

lemmas float_eval =
  fadd_def fsub_def fmul_def fdiv_def float_of_int_def fl32_def rne_def ilog2_def pow2_def
  roundf_def int_of_float_def INT_MIN_def INT_MAX_def bitlen_def compute_floorlog Let_def

lemmas determine_button_eval =
  determine_button_def button_rounded_def button_approx_def voltage_of_def SUPPLY_VOLTAGE_def
  float_eval

subsection \<open>Rounding to binary32\<close>

lemma pow2_pos [simp]: "0 < pow2 e"
  by (simp add: pow2_def)

lemma pow2_nonzero [simp]: "pow2 e \<noteq> 0"
  by (simp add: pow2_def)

lemma pow2_powi: "pow2 e = 2 powi e"
  by (simp add: pow2_def power_int_def field_simps)

lemma pow2_add: "pow2 (i + j) = pow2 i * pow2 j"
  by (simp add: pow2_powi power_int_add)

lemma pow2_nat: "0 \<le> e \<Longrightarrow> pow2 e = 2 ^ nat e"
  by (simp add: pow2_def)

lemma ilog2_bounds:
  assumes "0 < x"
  shows "pow2 (ilog2 x) \<le> x" and "x < pow2 (ilog2 x + 1)"
proof -
  have "pow2 (ilog2 x) \<le> x \<and> x < pow2 (ilog2 x + 1)"
  proof (cases "1 \<le> x")
    case True
    define n where "n = \<lfloor>x\<rfloor>"
    have n: "1 \<le> n" "of_int n \<le> x" "x < of_int n + 1"
      using True by (simp_all add: n_def le_floor_iff)
    then have b: "2 ^ nat (bitlen n - 1) \<le> n" "n < 2 ^ nat (bitlen n)"
      using bitlen_bounds [of n] by simp_all
    have pos: "1 \<le> bitlen n"
      using n(1) bitlen_eq_zero_iff [of n] bitlen_nonneg [of n] by linarith
    have e: "ilog2 x = bitlen n - 1"
      using True by (simp add: ilog2_def n_def)
    have "pow2 (ilog2 x) = of_int (2 ^ nat (bitlen n - 1))"
      using pos by (simp add: e pow2_nat)
    also have "\<dots> \<le> of_int n"
      using b(1) by (simp only: of_int_le_iff)
    finally have lo: "pow2 (ilog2 x) \<le> x"
      using n(2) by simp
    have "n + 1 \<le> 2 ^ nat (bitlen n)"
      using b(2) by simp
    then have "of_int (n + 1) \<le> (of_int (2 ^ nat (bitlen n)) :: real)"
      by (simp only: of_int_le_iff)
    moreover have "pow2 (ilog2 x + 1) = of_int (2 ^ nat (bitlen n))"
      using pos by (simp add: e pow2_nat)
    ultimately have "x < pow2 (ilog2 x + 1)"
      using n(3) by simp
    with lo show ?thesis ..
  next
    case False
    define y where "y = 1 / x"
    define m where "m = \<lceil>y\<rceil> - 1"
    have y: "1 < y" "x = 1 / y"
      using False assms by (simp_all add: y_def)
    have m: "1 \<le> m" "of_int m < y" "y \<le> of_int m + 1"
      using y(1) by (simp_all add: m_def less_ceiling_iff le_of_int_ceiling) linarith+
    have b: "2 ^ nat (bitlen m - 1) \<le> m" "m < 2 ^ nat (bitlen m)"
      using bitlen_bounds [of m] m(1) by simp_all
    have pos: "1 \<le> bitlen m"
      using m(1) bitlen_eq_zero_iff [of m] bitlen_nonneg [of m] by linarith
    have e: "ilog2 x = - bitlen m"
      using False by (simp add: ilog2_def m_def y_def)
    have "m + 1 \<le> 2 ^ nat (bitlen m)"
      using b(2) by simp
    then have "of_int (m + 1) \<le> (of_int (2 ^ nat (bitlen m)) :: real)"
      by (simp only: of_int_le_iff)
    with m(3) have up: "y \<le> 2 ^ nat (bitlen m)"
      by simp
    have "pow2 (ilog2 x) = 1 / 2 ^ nat (bitlen m)"
      using pos by (simp add: e pow2_def)
    also have "\<dots> \<le> 1 / y"
      using up y(1) by (intro divide_left_mono) simp_all
    finally have lo: "pow2 (ilog2 x) \<le> x"
      by (simp add: y(2))
    have "(2 :: real) ^ nat (bitlen m - 1) \<le> of_int m"
      using b(1) by simp
    with m(2) have low: "2 ^ nat (bitlen m - 1) < y"
      by linarith
    have "pow2 (ilog2 x + 1) = 1 / 2 ^ nat (bitlen m - 1)"
      using pos by (cases "bitlen m = 1") (simp_all add: e pow2_def)
    moreover have "1 / y < 1 / 2 ^ nat (bitlen m - 1)"
      using low y(1) by (intro divide_strict_left_mono) (simp_all add: zero_less_mult_iff)
    ultimately have "x < pow2 (ilog2 x + 1)"
      by (simp add: y(2))
    with lo show ?thesis ..
  qed
  then show "pow2 (ilog2 x) \<le> x" and "x < pow2 (ilog2 x + 1)"
    by simp_all
qed

lemma rne_error: "\<bar>of_int (rne y) - y\<bar> \<le> 1 / 2"
  unfolding rne_def Let_def by (auto simp add: abs_le_iff)

lemma rne_of_int [simp]: "rne (of_int n) = n"
  by (simp add: rne_def)


lemma fl32_error: "\<bar>fl32 x - x\<bar> \<le> \<bar>x\<bar> / 2 ^ 24"
proof (cases "x = 0")
  case True
  then show ?thesis by (simp add: fl32_def)
next
  case False
  define q where "q = pow2 (ilog2 \<bar>x\<bar> - 23)"
  have q: "0 < q" by (simp add: q_def)
  have "pow2 (ilog2 \<bar>x\<bar>) = q * 2 ^ 23"
    using pow2_add [of "ilog2 \<bar>x\<bar> - 23" 23] by (simp add: q_def pow2_def)
  with ilog2_bounds(1) [of "\<bar>x\<bar>"] False have lo: "q * 2 ^ 23 \<le> \<bar>x\<bar>"
    by simp
  have "fl32 x - x = q * (of_int (rne (x / q)) - x / q)"
    using False q by (simp add: fl32_def q_def [symmetric] Let_def field_simps)
  then have "\<bar>fl32 x - x\<bar> = q * \<bar>of_int (rne (x / q)) - x / q\<bar>"
    using q by (simp add: abs_mult)
  also have "\<dots> \<le> q * (1 / 2)"
    using q rne_error [of "x / q"] by (intro mult_left_mono) simp_all
  also have "\<dots> \<le> \<bar>x\<bar> / 2 ^ 24"
    using lo by simp
  finally show ?thesis .
qed

lemma fl32_exact:
  assumes "x \<noteq> 0" and "x / pow2 (ilog2 \<bar>x\<bar> - 23) = of_int m"
  shows "fl32 x = x"
proof -
  have "fl32 x = of_int (rne (of_int m)) * pow2 (ilog2 \<bar>x\<bar> - 23)"
    using assms by (simp add: fl32_def Let_def)
  also have "\<dots> = x / pow2 (ilog2 \<bar>x\<bar> - 23) * pow2 (ilog2 \<bar>x\<bar> - 23)"
    by (simp add: assms(2))
  also have "\<dots> = x"
    using pow2_pos [of "ilog2 \<bar>x\<bar> - 23"] by simp
  finally show ?thesis .
qed

lemma fl32_of_int:
  assumes "\<bar>n\<bar> \<le> 2 ^ 24"
  shows "fl32 (of_int n) = of_int n"
proof (cases "n = 0")
  case True
  then show ?thesis by (simp add: fl32_def)
next
  case False
  define e where "e = ilog2 \<bar>of_int n\<bar>"
  have pos: "0 < \<bar>real_of_int n\<bar>"
    using False by simp
  have le: "pow2 e \<le> \<bar>of_int n\<bar>"
    unfolding e_def using pos by (rule ilog2_bounds)
  have "\<bar>real_of_int n\<bar> \<le> 2 ^ 24"
    using assms by (metis of_int_abs of_int_le_iff of_int_numeral of_int_power)
  with le have "pow2 e \<le> pow2 24"
    by (simp add: pow2_def)
  then have e24: "e \<le> 24"
    unfolding pow2_powi by (rule power_int_le_imp_le_exp [rotated]) simp_all
  show ?thesis
  proof (cases "e = 24")
    case True
    with le have "2 ^ 24 \<le> \<bar>real_of_int n\<bar>"
      by (simp add: pow2_def)
    then have "2 ^ 24 \<le> \<bar>n\<bar>"
      by (metis of_int_abs of_int_le_iff of_int_numeral of_int_power)
    with assms have "n = 2 ^ 24 \<or> n = - (2 ^ 24)"
      by linarith
    then have "of_int n / pow2 (e - 23) = real_of_int (n div 2)"
      using True by (auto simp add: pow2_def)
    then show ?thesis
      unfolding e_def using False by (intro fl32_exact) simp_all
  next
    case False
    with e24 have "0 \<le> 23 - e" by simp
    have "pow2 (e - 23) * pow2 (23 - e) = 1"
      using pow2_add [of "e - 23" "23 - e"] by (simp add: pow2_def)
    then have "of_int n / pow2 (e - 23) = of_int n * pow2 (23 - e)"
      by (simp add: field_simps)
    also have "\<dots> = of_int (n * 2 ^ nat (23 - e))"
      using \<open>0 \<le> 23 - e\<close> by (simp add: pow2_nat)
    finally have "of_int n / pow2 (e - 23) = of_int (n * 2 ^ nat (23 - e))" .
    then show ?thesis
      unfolding e_def by (rule fl32_exact [rotated]) (simp add: \<open>n \<noteq> 0\<close>)
  qed
qed

lemma int_of_float_roundf:
  "int_of_float (roundf x) =
     (if INT_MIN \<le> round_half_away x \<and> round_half_away x \<le> INT_MAX
      then Some (round_half_away x) else None)"
  by (simp add: int_of_float_def roundf_def round_half_away_def Let_def)


lemma round_half_away_of_int [simp]: "round_half_away (of_int k) = k"
  unfolding round_half_away_def by (auto simp add: floor_eq_iff)


lemma voltage_of_error:
  assumes "0 \<le> s" and "s \<le> 1023"
  shows "\<bar>voltage_of s - 5 * of_int s / 1023\<bar> \<le> 5 / 2 ^ 24"
proof -
  have "float_of_int s = of_int s"
    unfolding float_of_int_def using assms by (intro fl32_of_int) simp
  moreover have "fl32 (of_int (5 * s)) = of_int (5 * s)"
    using assms by (intro fl32_of_int) simp
  ultimately have v: "voltage_of s = fl32 (5 * of_int s / 1023)"
    by (simp add: voltage_of_def fdiv_def fmul_def SUPPLY_VOLTAGE_def)
  have "\<bar>5 * real_of_int s / 1023\<bar> \<le> 5"
    using assms by simp
  with fl32_error [of "5 * of_int s / 1023"] show ?thesis
    unfolding v by simp
qed

lemma fl32_error_le:
  assumes "\<bar>x\<bar> \<le> B"
  shows "\<bar>fl32 x - x\<bar> \<le> B / 16777216"
proof -
  have "\<bar>fl32 x - x\<bar> \<le> \<bar>x\<bar> / 16777216"
    using fl32_error [of x] by simp
  also have "\<dots> \<le> B / 16777216"
    using assms by (rule divide_right_mono) simp
  finally show ?thesis .
qed

lemma approx_error:
  assumes "0 \<le> v0" and "v0 \<le> 5" and v: "\<bar>v - v0\<bar> \<le> 5 / 2 ^ 24" and M: "1 \<le> M"
  shows "\<bar>fadd (fmul (fsub 1 v) M) v - ((1 - v0) * M + v0)\<bar> \<le> 1701 / 100 * M / 2 ^ 24"
proof -
  define a where "a = fl32 (1 - v)"
  define b where "b = fl32 (a * M)"
  define c where "c = fl32 (b + v)"
  define d1 where "d1 = c - (b + v)"
  define d2 where "d2 = b - a * M"
  define d3 where "d3 = M * (a - (1 - v))"
  define d4 where "d4 = (v - v0) * (1 - M)"
  have c: "fadd (fmul (fsub 1 v) M) v = c"
    by (simp add: fadd_def fmul_def fsub_def a_def b_def c_def)
  have sum: "c - ((1 - v0) * M + v0) = d1 + d2 + d3 + d4"
    by (simp add: d1_def d2_def d3_def d4_def algebra_simps)
  have v': "\<bar>v - v0\<bar> \<le> 5 / 16777216"
    using v by simp
  have v_bd: "\<bar>v\<bar> \<le> 5001 / 1000"
    using assms(1,2) v' by linarith
  have va: "\<bar>1 - v\<bar> \<le> 4001 / 1000"
    using assms(1,2) v' by linarith
  have ea: "\<bar>a - (1 - v)\<bar> \<le> 4001 / 16777216000"
    using fl32_error_le [OF va] by (simp add: a_def)
  with va have a_bd: "\<bar>a\<bar> \<le> 40011 / 10000"
    by linarith
  have "\<bar>d3\<bar> = M * \<bar>a - (1 - v)\<bar>"
    using M by (simp add: d3_def abs_mult)
  also have "\<dots> \<le> M * (4001 / 16777216000)"
    using M ea by (intro mult_left_mono) simp_all
  finally have e3: "\<bar>d3\<bar> \<le> 4001 / 16777216000 * M"
    by simp
  have "\<bar>a * M\<bar> = \<bar>a\<bar> * M"
    using M by (simp add: abs_mult)
  also have "\<dots> \<le> 40011 / 10000 * M"
    using M a_bd by (intro mult_right_mono) simp_all
  finally have aM: "\<bar>a * M\<bar> \<le> 40011 / 10000 * M" .
  have e2: "\<bar>d2\<bar> \<le> 40011 / 167772160000 * M"
    using fl32_error_le [OF aM] by (simp add: d2_def b_def)
  have b_bd: "\<bar>b\<bar> \<le> 40012 / 10000 * M"
    using e2 aM M unfolding d2_def by linarith
  have bv: "\<bar>b + v\<bar> \<le> 40012 / 10000 * M + 5001 / 1000"
    using b_bd v_bd by linarith
  have e1: "\<bar>d1\<bar> \<le> 40012 / 167772160000 * M + 5001 / 16777216000"
    using fl32_error_le [OF bv] by (simp add: d1_def c_def add_divide_distrib)
  have "\<bar>d4\<bar> = \<bar>v - v0\<bar> * (M - 1)"
    using M by (simp add: d4_def abs_mult)
  also have "\<dots> \<le> 5 / 16777216 * (M - 1)"
    using M v' by (intro mult_right_mono) simp_all
  finally have e4: "\<bar>d4\<bar> \<le> 5 / 16777216 * M - 5 / 16777216"
    by (simp add: algebra_simps)
  have "\<bar>d1 + d2 + d3 + d4\<bar> \<le> 1701 / 1677721600 * M"
    using e1 e2 e3 e4 M by linarith
  then show ?thesis
    unfolding c sum by simp
qed

lemma button_approx_error:
  assumes "0 \<le> s" and "s \<le> 1023" and "1 \<le> float_of_int (number_buttons this)"
  shows "\<bar>button_approx this s - ladder_position (float_of_int (number_buttons this)) s\<bar>
    \<le> 1701 / 100 * float_of_int (number_buttons this) / 2 ^ 24"
proof -
  have "0 \<le> 5 * real_of_int s / 1023" and "5 * real_of_int s / 1023 \<le> 5"
    using assms(1,2) by simp_all
  then show ?thesis
    unfolding button_approx_def ladder_position_def Let_def
    using voltage_of_error [OF assms(1,2)] assms(3) by (rule approx_error)
qed

lemma float_of_int_small: "\<bar>n\<bar> \<le> 2 ^ 24 \<Longrightarrow> float_of_int n = of_int n"
  unfolding float_of_int_def by (rule fl32_of_int)


lemma round_half_away_bounds:
  "of_int (round_half_away x) - 1 / 2 \<le> x" "x \<le> of_int (round_half_away x) + 1 / 2"
  unfolding round_half_away_def by (auto) linarith+

subsection \<open>The position and its conversion\<close>

lemma button_rounded_alt:
  "button_rounded this s =
     (if INT_MIN \<le> round_half_away (button_approx this s)
        \<and> round_half_away (button_approx this s) \<le> INT_MAX
      then Some (round_half_away (button_approx this s)) else None)"
  by (simp add: button_rounded_def int_of_float_roundf)




text \<open>
  Up to 8193 buttons the rounded position lies between \<open>5 - 4 * n\<close> and \<open>n\<close>, so that
  it fits an \<open>int\<close> and is returned as it is.
\<close>

lemma position_range:
  assumes "1 \<le> number_buttons this" and "number_buttons this \<le> 8193"
    and "0 \<le> s" and "s \<le> 1023"
  shows "5 - 4 * number_buttons this \<le> round_half_away (button_approx this s)"
    and "round_half_away (button_approx this s) \<le> number_buttons this"
proof -
  define n where "n = number_buttons this"
  define x where "x = ladder_position (of_int n) s"
  define c where "c = button_approx this s"
  define k where "k = round_half_away c"
  define v where "v = 5 * real_of_int s / 1023"
  have n: "1 \<le> real_of_int n" "real_of_int n \<le> 8193"
    using assms(1,2) by (simp_all add: n_def)
  have M: "float_of_int n = of_int n"
    using assms(1,2) unfolding n_def by (intro float_of_int_small) simp
  have "\<bar>c - x\<bar> \<le> 1701 / 100 * of_int n / 2 ^ 24"
    using button_approx_error [OF assms(3,4), of this] n(1)
    unfolding n_def [symmetric] M x_def c_def by simp
  moreover have "1701 / 100 * real_of_int n / 2 ^ 24 \<le> 1701 / 100 * 8193 / 2 ^ 24"
    using n(2) by simp
  ultimately have err: "\<bar>c - x\<bar> \<le> 1 / 100"
    by simp
  have v: "0 \<le> v" "v \<le> 5"
    using assms(3,4) by (simp_all add: v_def)
  define p where "p = v * (of_int n - 1)"
  have p0: "0 \<le> p"
    using v(1) n(1) by (simp add: p_def)
  have "p \<le> 5 * (of_int n - 1)"
    unfolding p_def using v(2) n(1) by (intro mult_right_mono) simp_all
  then have p1: "p \<le> 5 * of_int n - 5"
    by simp
  have xp: "x = of_int n - p"
    by (simp add: x_def ladder_position_def v_def p_def field_simps)
  have x: "5 - 4 * of_int n \<le> x" "x \<le> of_int n"
    using p0 p1 unfolding xp by linarith+
  have "of_int k - 1 / 2 \<le> c" and "c \<le> of_int k + 1 / 2"
    unfolding k_def by (rule round_half_away_bounds)+
  with err x have "5 - 4 * real_of_int n < of_int k + 1" and "real_of_int k < of_int n + 1"
    by linarith+
  then have "real_of_int (5 - 4 * n) < of_int (k + 1)" and "real_of_int k < of_int (n + 1)"
    by simp_all
  then have "5 - 4 * n < k + 1" and "k < n + 1"
    by (simp_all only: of_int_less_iff)
  then show "5 - 4 * number_buttons this \<le> round_half_away (button_approx this s)"
    and "round_half_away (button_approx this s) \<le> number_buttons this"
    by (simp_all add: k_def c_def n_def)
qed

lemma button_rounded_defined:
  assumes "1 \<le> number_buttons this" and "number_buttons this \<le> 8193"
    and "0 \<le> s" and "s \<le> 1023"
  shows "button_rounded this s = Some (round_half_away (button_approx this s))"
  using position_range [OF assms] assms(1,2)
  by (simp add: button_rounded_alt INT_MIN_def INT_MAX_def)

lemma determine_button_defined:
  assumes "1 \<le> number_buttons this" and "number_buttons this \<le> 8193"
    and "0 \<le> s" and "s \<le> 1023"
  shows "determine_button this s = Some (round_half_away (button_approx this s))"
  using position_range(2) [OF assms]
  by (simp add: determine_button_def button_rounded_defined [OF assms])

lemma voltage_of_full: "voltage_of 1023 = 5"
  by (simp add: voltage_of_def SUPPLY_VOLTAGE_def float_eval)

subsection \<open>The paths through \<open>read_key\<close>\<close>

text \<open>
  The comparison \<open>millis() > timestamp + interval\<close> is made modulo \<open>2 ^ 32\<close>. Where the
  sum of the unbounded values does not pass the clock reading, it agrees with the comparison
  of the unbounded values.
\<close>

lemma no_wrap_less:
  fixes a now :: "32 word"
  assumes "0 \<le> d" and "uint a + d < uint now"
  shows "a + word_of_int d < now"
proof -
  have "uint now < 2 ^ 32"
    using uint_lt2p [of now] by simp
  with assms have "(uint a + d) mod 2 ^ 32 = uint a + d"
    by (intro mod_pos_pos_trivial) (use uint_ge_0 [of a] in linarith)+
  then have "uint (a + word_of_int d) = uint a + d"
    by (simp add: uint_word_ariths uint_word_of_int mod_add_right_eq)
  with assms show ?thesis
    by (simp add: word_less_def)
qed

lemma no_wrap_eq:
  fixes a now :: "32 word"
  assumes "uint now = uint a + d"
  shows "now = a + word_of_int d"
proof -
  have "word_of_int (uint now) = (word_of_int (uint a + d) :: 32 word)"
    using assms by simp
  then show ?thesis by simp
qed

text \<open>
  \<open>read_key\<close> begins with \<open>determine_button\<close>; where that has no defined result,
  neither has the call.
\<close>

lemma read_key_undefined:
  "determine_button this s = None \<Longrightarrow> read_key this s now now' = None"
  by (simp add: read_key_def)

text \<open>The five paths through \<open>read_key\<close>, for a reading \<open>r\<close>.\<close>

lemma read_key_accept:
  assumes "determine_button this s = Some r"
    and "keypad_state this = KEYPAD_STATE_DEBOUNCING"
    and "debounce_timestamp this + word_of_int (debounce_milliseconds this) < now"
  shows "read_key this s now now' =
     Some (r, this\<lparr>last_key := r, repeating_timestamp := now',
                   keypad_state := KEYPAD_STATE_IDLE\<rparr>)"
  using assms by (simp add: read_key_def)

lemma read_key_wait:
  assumes "determine_button this s = Some r"
    and "keypad_state this = KEYPAD_STATE_DEBOUNCING"
    and "now \<le> debounce_timestamp this + word_of_int (debounce_milliseconds this)"
  shows "read_key this s now now' = Some (- 1, this)"
proof -
  have "\<not> debounce_timestamp this + word_of_int (debounce_milliseconds this) < now"
    using assms(3) by (simp add: not_less)
  with assms(1,2) show ?thesis
    by (simp add: read_key_def)
qed

lemma read_key_change:
  assumes "determine_button this s = Some r"
    and "keypad_state this = KEYPAD_STATE_IDLE"
    and "r \<noteq> last_key this"
  shows "read_key this s now now' =
     Some (- 1, this\<lparr>debounce_timestamp := now, keypad_state := KEYPAD_STATE_DEBOUNCING\<rparr>)"
  using assms by (auto simp add: read_key_def)

lemma read_key_repeat:
  assumes "determine_button this s = Some (last_key this)"
    and "keypad_state this = KEYPAD_STATE_IDLE"
    and "0 < repeat_milliseconds this"
    and "repeating_timestamp this + word_of_int (repeat_milliseconds this) < now"
  shows "read_key this s now now' =
     Some (last_key this, this\<lparr>repeating_timestamp := now'\<rparr>)"
  using assms by (simp add: read_key_def Let_def)

lemma read_key_steady:
  assumes "determine_button this s = Some (last_key this)"
    and "keypad_state this = KEYPAD_STATE_IDLE"
    and "repeat_milliseconds this \<le> 0 \<or>
         now \<le> repeating_timestamp this + word_of_int (repeat_milliseconds this)"
  shows "read_key this s now now' = Some (- 1, this)"
  using assms by (auto simp add: read_key_def Let_def not_less)

lemma determine_button_cong:
  "number_buttons this' = number_buttons this \<Longrightarrow>
   determine_button this' s = determine_button this s"
  by (simp add: determine_button_def button_rounded_def button_approx_def
      cong: option.case_cong)

lemma determine_button_le:
  "- 1 \<le> number_buttons this \<Longrightarrow> determine_button this s = Some r \<Longrightarrow>
   r \<le> number_buttons this"
  by (auto simp add: determine_button_def split: option.splits if_splits)

lemma read_key_number_buttons:
  "read_key this s now now' = Some (k, this') \<Longrightarrow> number_buttons this' = number_buttons this"
  by (auto simp add: read_key_def Let_def split: option.splits if_splits)

lemma read_key_last_key:
  "read_key this s now now' = Some (k, this') \<Longrightarrow>
   last_key this' = last_key this \<or> determine_button this s = Some (last_key this')"
  by (auto simp add: read_key_def Let_def split: option.splits if_splits)

lemma set_repeat_fields [simp]:
  "number_buttons (set_repeat ms this) = number_buttons this"
  "last_key (set_repeat ms this) = last_key this"
  by (simp_all add: set_repeat_def)

lemma set_debounce_fields [simp]:
  "number_buttons (set_debounce ms this) = number_buttons this"
  "last_key (set_debounce ms this) = last_key this"
  by (simp_all add: set_debounce_def)

subsection \<open>Runs\<close>

lemma run_PollD:
  assumes "run this (Poll s t1 t2 # cs) = Some (keys, this')"
  shows "\<exists>k K ks. read_key this s t1 t2 = Some (k, K) \<and> run K cs = Some (ks, this') \<and>
    keys = k # ks"
  using assms by (auto split: option.splits)

lemma run_PollI:
  assumes "read_key this s t1 t2 = Some (k, K)" and "run K cs = Some (ks, this')"
  shows "run this (Poll s t1 t2 # cs) = Some (k # ks, this')"
  using assms by simp

lemma run_number_buttons:
  "run this cs = Some (keys, this') \<Longrightarrow> number_buttons this' = number_buttons this"
proof (induction cs arbitrary: this keys)
  case Nil
  then show ?case by simp
next
  case (Cons c cs)
  show ?case
  proof (cases c)
    case (Poll s t1 t2)
    from Cons.prems have "run this (Poll s t1 t2 # cs) = Some (keys, this')"
      by (simp only: Poll)
    from run_PollD [OF this] obtain k K ks where "read_key this s t1 t2 = Some (k, K)"
      and "run K cs = Some (ks, this')"
      by blast
    then show ?thesis
      using Cons.IH [of K ks] by (simp add: read_key_number_buttons)
  next
    case (Repeat ms)
    with Cons.prems show ?thesis
      using Cons.IH [of "set_repeat ms this" keys] by simp
  next
    case (Debounce ms)
    with Cons.prems show ?thesis
      using Cons.IH [of "set_debounce ms this" keys] by simp
  qed
qed

lemma run_last_key:
  "run this cs = Some (keys, this') \<Longrightarrow>
   last_key this' = last_key this \<or>
   Some (last_key this') \<in> determine_button this ` set (samples cs)"
proof (induction cs arbitrary: this keys)
  case Nil
  then show ?case by simp
next
  case (Cons c cs)
  show ?case
  proof (cases c)
    case (Poll s t1 t2)
    from Cons.prems have "run this (Poll s t1 t2 # cs) = Some (keys, this')"
      by (simp only: Poll)
    from run_PollD [OF this] obtain k K ks where rk: "read_key this s t1 t2 = Some (k, K)"
      and run: "run K cs = Some (ks, this')"
      by blast
    have same: "determine_button K = determine_button this"
      by (rule ext, rule determine_button_cong) (rule read_key_number_buttons [OF rk])
    from Cons.IH [OF run] read_key_last_key [OF rk]
    show ?thesis
      unfolding same by (auto simp add: Poll image_iff)
  next
    case (Repeat ms)
    have same: "determine_button (set_repeat ms this) = determine_button this"
      by (rule ext, rule determine_button_cong) simp
    from Cons.prems have "run (set_repeat ms this) cs = Some (keys, this')"
      by (simp add: Repeat)
    from Cons.IH [OF this] show ?thesis
      unfolding same by (simp add: Repeat)
  next
    case (Debounce ms)
    have same: "determine_button (set_debounce ms this) = determine_button this"
      by (rule ext, rule determine_button_cong) simp
    from Cons.prems have "run (set_debounce ms this) cs = Some (keys, this')"
      by (simp add: Debounce)
    from Cons.IH [OF this] show ?thesis
      unfolding same by (simp add: Debounce)
  qed
qed

lemma run_steady:
  assumes "repeat_milliseconds this = 0" and "keypad_state this = KEYPAD_STATE_IDLE"
    and "held this (last_key this) cs"
  shows "run this cs = Some (replicate (length cs) (- 1), this)"
  using assms(3)
proof (induction cs)
  case Nil
  show ?case by simp
next
  case (Cons c cs)
  from Cons.prems have c: "reads this (last_key this) c" and cs: "held this (last_key this) cs"
    by (simp_all add: held_def)
  from c obtain s t1 t2 where poll: "c = Poll s t1 t2"
    and r: "determine_button this s = Some (last_key this)"
    by (cases c) simp_all
  have "read_key this s t1 t2 = Some (- 1, this)"
    using r assms(2) assms(1) by (intro read_key_steady) simp_all
  then have "run this (Poll s t1 t2 # cs) = Some (- 1 # replicate (length cs) (- 1), this)"
    using Cons.IH [OF cs] by (rule run_PollI)
  then show ?case
    by (simp only: poll length_Cons replicate_Suc)
qed

subsection \<open>Concrete objects\<close>

lemma construct_simps:
  "pin (construct p n t0) = p"
  "number_buttons (construct p n t0) = n"
  "repeat_milliseconds (construct p n t0) = 0"
  "debounce_milliseconds (construct p n t0) = 50"
  "last_key (construct p n t0) = - 1"
  "keypad_state (construct p n t0) = KEYPAD_STATE_IDLE"
  "debounce_timestamp (construct p n t0) = t0"
  "repeating_timestamp (construct p n t0) = t0"
  by (simp_all add: construct_def set_repeat_def set_debounce_def DEFAULT_DEBOUNCE_TIME_def
      DEFAULT_REPEAT_TIME_def)

lemma construct_sketch:
  "construct 14 n t0 = sketch_state n KEYPAD_STATE_IDLE (- 1) 0 50 t0 t0"
  by (simp add: construct_def set_repeat_def set_debounce_def DEFAULT_DEBOUNCE_TIME_def
      DEFAULT_REPEAT_TIME_def sketch_state_def)

lemma sketch_state_simps [simp]:
  "number_buttons (sketch_state n ph k rp db dts rts) = n"
  "repeat_milliseconds (sketch_state n ph k rp db dts rts) = rp"
  "debounce_milliseconds (sketch_state n ph k rp db dts rts) = db"
  "last_key (sketch_state n ph k rp db dts rts) = k"
  "keypad_state (sketch_state n ph k rp db dts rts) = ph"
  "debounce_timestamp (sketch_state n ph k rp db dts rts) = dts"
  "repeating_timestamp (sketch_state n ph k rp db dts rts) = rts"
  by (simp_all add: sketch_state_def)

lemma three_buttons_0: "number_buttons this = 3 \<Longrightarrow> determine_button this 0 = Some 3"
  by (simp add: determine_button_eval)

lemma three_buttons_400: "number_buttons this = 3 \<Longrightarrow> determine_button this 400 = Some (- 1)"
  by (simp add: determine_button_eval)

text \<open>
  Three buttons, the lowest voltage from the construction on: the first poll stages the
  reading 3, the second accepts it.
\<close>

lemma run_sample_0:
  "run (construct 14 3 0) [Poll 0 0 0, Poll 0 100 100] =
     Some ([- 1, 3], sketch_state 3 KEYPAD_STATE_IDLE 3 0 50 0 100)"
proof -
  let ?D = "sketch_state 3 KEYPAD_STATE_DEBOUNCING (- 1) 0 50 0 0"
  let ?K = "sketch_state 3 KEYPAD_STATE_IDLE 3 0 50 0 100"
  have r: "determine_button this 0 = Some 3" if "number_buttons this = 3" for this
    using that by (rule three_buttons_0)
  have "read_key (construct 14 3 0) 0 0 0 =
      Some (- 1, (construct 14 3 0)\<lparr>debounce_timestamp := 0,
        keypad_state := KEYPAD_STATE_DEBOUNCING\<rparr>)"
    by (rule read_key_change [where r = 3]) (simp_all add: r construct_simps)
  then have 1: "read_key (construct 14 3 0) 0 0 0 = Some (- 1, ?D)"
    by (simp add: construct_sketch sketch_state_def)
  have "read_key ?D 0 100 100 =
      Some (3, ?D\<lparr>last_key := 3, repeating_timestamp := 100,
        keypad_state := KEYPAD_STATE_IDLE\<rparr>)"
    by (rule read_key_accept) (simp_all add: r)
  then have 2: "read_key ?D 0 100 100 = Some (3, ?K)"
    by (simp add: sketch_state_def)
  have "run ?K [] = Some ([], ?K)"
    by simp
  with 2 have "run ?D [Poll 0 100 100] = Some ([3], ?K)"
    by (rule run_PollI)
  with 1 show ?thesis
    by (rule run_PollI)
qed


section \<open>The debounce and repeat state machine\<close>

text \<open>
  In the theorems on \<open>read_key\<close>, \<open>r\<close> is the reading of \<open>determine_button\<close> for the
  sample of the poll, \<open>now\<close> is the clock reading that the call compares and \<open>now'\<close> the
  reading that it stores on the two paths that read the clock a second time. The spec's
  poll has one clock value: the case \<open>now' = now\<close>. For 1 to 8193 buttons and a sample
  in \<open>0..1023\<close> the reading is defined (\<open>determine_button_defined\<close>); where it is not,
  the call has no defined result either (\<open>read_key_undefined\<close>).
\<close>

text \<open>
  Claim C1. In the state \<open>DEBOUNCING\<close>, a poll whose clock reading \<open>now\<close> is past
  \<open>debounce_timestamp + debounce_milliseconds\<close> (as the code compares them, modulo
  \<open>2 ^ 32\<close>, or as unbounded numbers when the debounce time is not negative) accepts the
  current reading \<open>r\<close> of \<open>determine_button\<close>: it returns \<open>r\<close>, whatever \<open>r\<close> is (\<open>- 1\<close>
  too), and sets \<open>last_key\<close> to \<open>r\<close>, \<open>repeating_timestamp\<close> to the clock reading and the
  state to \<open>IDLE\<close>, changing nothing else.
\<close>

theorem debounce_expired_accepts:
  assumes "determine_button this s = Some r"
    and "keypad_state this = KEYPAD_STATE_DEBOUNCING"
    and "debounce_timestamp this + word_of_int (debounce_milliseconds this) < now \<or>
         0 \<le> debounce_milliseconds this \<and>
         uint (debounce_timestamp this) + debounce_milliseconds this < uint now"
  shows "read_key this s now now' =
     Some (r, this\<lparr>last_key := r, repeating_timestamp := now',
                   keypad_state := KEYPAD_STATE_IDLE\<rparr>)"
proof -
  from assms(3)
  have "debounce_timestamp this + word_of_int (debounce_milliseconds this) < now"
    by (auto intro: no_wrap_less)
  with assms(1,2) show ?thesis
    by (rule read_key_accept)
qed

text \<open>
  An instance: key 3 is held, its release (sample 400 reads as \<open>- 1\<close>) was seen at
  1000 ms, and the poll at 1051 ms reports the release.
\<close>

theorem debounce_expired_accepts_witness:
  "determine_button (sketch_state 3 KEYPAD_STATE_DEBOUNCING 3 0 50 1000 0) 400 = Some (- 1) \<and>
   keypad_state (sketch_state 3 KEYPAD_STATE_DEBOUNCING 3 0 50 1000 0)
     = KEYPAD_STATE_DEBOUNCING \<and>
   debounce_timestamp (sketch_state 3 KEYPAD_STATE_DEBOUNCING 3 0 50 1000 0)
     + word_of_int (debounce_milliseconds (sketch_state 3 KEYPAD_STATE_DEBOUNCING 3 0 50 1000 0))
     < (1051 :: 32 word) \<and>
   read_key (sketch_state 3 KEYPAD_STATE_DEBOUNCING 3 0 50 1000 0) 400 1051 1051 =
     Some (- 1, sketch_state 3 KEYPAD_STATE_IDLE (- 1) 0 50 1000 1051)"
proof -
  let ?D = "sketch_state 3 KEYPAD_STATE_DEBOUNCING 3 0 50 1000 0"
  have r: "determine_button ?D 400 = Some (- 1)"
    by (rule three_buttons_400) simp
  have h1: "keypad_state ?D = KEYPAD_STATE_DEBOUNCING"
    by simp
  have h2: "debounce_timestamp ?D + word_of_int (debounce_milliseconds ?D) < (1051 :: 32 word)"
    by simp
  from debounce_expired_accepts [OF r h1 disjI1 [OF h2], of 1051]
  have "read_key ?D 400 1051 1051 =
     Some (- 1, sketch_state 3 KEYPAD_STATE_IDLE (- 1) 0 50 1000 1051)"
    by (simp add: sketch_state_def)
  with r h1 h2 show ?thesis by simp
qed

text \<open>
  Claim C8. Both comparisons are strict. In the state \<open>DEBOUNCING\<close>, a poll whose clock
  reading is not past \<open>debounce_timestamp + debounce_milliseconds\<close>, in particular one
  that equals it (modulo \<open>2 ^ 32\<close> as the code adds, or as unbounded numbers), returns
  \<open>- 1\<close> and leaves the object unchanged. In the state \<open>IDLE\<close> with the reading equal to
  \<open>last_key\<close>, a poll whose clock reading is not past
  \<open>repeating_timestamp + repeat_milliseconds\<close> returns \<open>- 1\<close> and leaves the object
  unchanged. So an acceptance and a repeat need a clock reading strictly greater.
\<close>

theorem comparisons_are_strict:
  assumes "determine_button this s = Some r"
  shows
  "(keypad_state this = KEYPAD_STATE_DEBOUNCING \<and>
    (now \<le> debounce_timestamp this + word_of_int (debounce_milliseconds this) \<or>
     uint now = uint (debounce_timestamp this) + debounce_milliseconds this)
    \<longrightarrow> read_key this s now now' = Some (- 1, this)) \<and>
   (keypad_state this = KEYPAD_STATE_IDLE \<and> r = last_key this \<and>
    (now \<le> repeating_timestamp this + word_of_int (repeat_milliseconds this) \<or>
     uint now = uint (repeating_timestamp this) + repeat_milliseconds this)
    \<longrightarrow> read_key this s now now' = Some (- 1, this))"
proof (intro conjI impI; elim conjE)
  assume "keypad_state this = KEYPAD_STATE_DEBOUNCING"
    and "now \<le> debounce_timestamp this + word_of_int (debounce_milliseconds this) \<or>
     uint now = uint (debounce_timestamp this) + debounce_milliseconds this"
  moreover from this(2)
  have "now \<le> debounce_timestamp this + word_of_int (debounce_milliseconds this)"
    by (auto dest: no_wrap_eq)
  ultimately show "read_key this s now now' = Some (- 1, this)"
    using assms by (intro read_key_wait)
next
  assume "keypad_state this = KEYPAD_STATE_IDLE" and "r = last_key this"
    and "now \<le> repeating_timestamp this + word_of_int (repeat_milliseconds this) \<or>
     uint now = uint (repeating_timestamp this) + repeat_milliseconds this"
  moreover from this(3)
  have "now \<le> repeating_timestamp this + word_of_int (repeat_milliseconds this)"
    by (auto dest: no_wrap_eq)
  ultimately show "read_key this s now now' = Some (- 1, this)"
    using assms by (intro read_key_steady) simp_all
qed

theorem comparisons_are_strict_witness:
  "read_key (sketch_state 3 KEYPAD_STATE_DEBOUNCING (- 1) 250 50 1000 0) 0 1050 1050 =
     Some (- 1, sketch_state 3 KEYPAD_STATE_DEBOUNCING (- 1) 250 50 1000 0) \<and>
   read_key (sketch_state 3 KEYPAD_STATE_IDLE 3 250 50 1000 1050) 0 1300 1300 =
     Some (- 1, sketch_state 3 KEYPAD_STATE_IDLE 3 250 50 1000 1050)"
proof
  let ?D = "sketch_state 3 KEYPAD_STATE_DEBOUNCING (- 1) 250 50 1000 0"
  let ?K = "sketch_state 3 KEYPAD_STATE_IDLE 3 250 50 1000 1050"
  have rD: "determine_button ?D 0 = Some 3" and rK: "determine_button ?K 0 = Some 3"
    by (rule three_buttons_0, simp)+
  show "read_key ?D 0 1050 1050 = Some (- 1, ?D)"
    using comparisons_are_strict [OF rD, of 1050 1050, THEN conjunct1] by simp
  show "read_key ?K 0 1300 1300 = Some (- 1, ?K)"
    using comparisons_are_strict [OF rK, of 1300 1300, THEN conjunct2] by simp
qed

text \<open>
  Claim C9. In the state \<open>IDLE\<close>, a poll whose reading differs from \<open>last_key\<close> returns
  \<open>- 1\<close>, sets the state to \<open>DEBOUNCING\<close> and \<open>debounce_timestamp\<close> to the clock reading
  and changes nothing else, whatever the debounce time is. With a debounce time of 0 the
  reading is returned by the next poll with a later clock reading.
\<close>

theorem change_starts_debounce:
  assumes "determine_button this s = Some r"
    and "keypad_state this = KEYPAD_STATE_IDLE"
    and "r \<noteq> last_key this"
  shows "read_key this s now now' =
      Some (- 1, this\<lparr>debounce_timestamp := now,
                      keypad_state := KEYPAD_STATE_DEBOUNCING\<rparr>) \<and>
    (debounce_milliseconds this = 0 \<and> now < later \<longrightarrow>
     map_option fst
       (read_key (this\<lparr>debounce_timestamp := now, keypad_state := KEYPAD_STATE_DEBOUNCING\<rparr>)
          s later later') = Some r)"
proof -
  let ?K = "this\<lparr>debounce_timestamp := now, keypad_state := KEYPAD_STATE_DEBOUNCING\<rparr>"
  have 1: "read_key this s now now' = Some (- 1, ?K)"
    using assms by (rule read_key_change)
  have "map_option fst (read_key ?K s later later') = Some r"
    if "debounce_milliseconds this = 0" and "now < later"
  proof -
    have "determine_button ?K s = determine_button this s"
      by (rule determine_button_cong) simp
    then have "determine_button ?K s = Some r"
      by (simp add: assms(1))
    then have "read_key ?K s later later' =
      Some (r, ?K\<lparr>last_key := r, repeating_timestamp := later',
                    keypad_state := KEYPAD_STATE_IDLE\<rparr>)"
      using that by (intro read_key_accept) simp_all
    then show ?thesis by simp
  qed
  with 1 show ?thesis by simp
qed

theorem change_starts_debounce_witness:
  "read_key (sketch_state 3 KEYPAD_STATE_IDLE (- 1) 0 0 0 0) 0 1000 1000 =
     Some (- 1, sketch_state 3 KEYPAD_STATE_DEBOUNCING (- 1) 0 0 1000 0) \<and>
   map_option fst
     (read_key (sketch_state 3 KEYPAD_STATE_DEBOUNCING (- 1) 0 0 1000 0) 0 1001 1001) = Some 3"
proof -
  let ?K = "sketch_state 3 KEYPAD_STATE_IDLE (- 1) 0 0 0 0"
  have r: "determine_button ?K 0 = Some 3"
    by (rule three_buttons_0) simp
  have h1: "keypad_state ?K = KEYPAD_STATE_IDLE"
    by simp
  have h2: "3 \<noteq> last_key ?K"
    by simp
  have K': "?K\<lparr>debounce_timestamp := 1000, keypad_state := KEYPAD_STATE_DEBOUNCING\<rparr> =
      sketch_state 3 KEYPAD_STATE_DEBOUNCING (- 1) 0 0 1000 0"
    by (simp add: sketch_state_def)
  from change_starts_debounce [OF r h1 h2, of 1000 1000 1001 1001]
  show ?thesis
    unfolding K' by simp
qed

text \<open>
  Claim C10. When a repeat fires (state \<open>IDLE\<close>, reading equal to \<open>last_key\<close>, a positive
  repeat time, clock past \<open>repeating_timestamp + repeat_milliseconds\<close>), the poll returns
  the key and updates \<open>repeating_timestamp\<close> only: the state stays \<open>IDLE\<close>, and
  \<open>last_key\<close> and \<open>debounce_timestamp\<close> are unchanged.
\<close>

theorem repeat_updates_only_anchor:
  assumes "determine_button this s = Some r"
    and "keypad_state this = KEYPAD_STATE_IDLE"
    and "r = last_key this"
    and "0 < repeat_milliseconds this"
    and "repeating_timestamp this + word_of_int (repeat_milliseconds this) < now"
  shows "read_key this s now now' = Some (r, this\<lparr>repeating_timestamp := now'\<rparr>) \<and>
    keypad_state (this\<lparr>repeating_timestamp := now'\<rparr>) = KEYPAD_STATE_IDLE \<and>
    last_key (this\<lparr>repeating_timestamp := now'\<rparr>) = last_key this \<and>
    debounce_timestamp (this\<lparr>repeating_timestamp := now'\<rparr>) = debounce_timestamp this"
proof -
  have "read_key this s now now' = Some (r, this\<lparr>repeating_timestamp := now'\<rparr>)"
    using read_key_repeat [of this s now now'] assms by simp
  with assms(2) show ?thesis
    by simp
qed

theorem repeat_updates_only_anchor_witness:
  "read_key (sketch_state 3 KEYPAD_STATE_IDLE 3 250 50 1000 1050) 0 1301 1301 =
     Some (3, sketch_state 3 KEYPAD_STATE_IDLE 3 250 50 1000 1301)"
proof -
  let ?K = "sketch_state 3 KEYPAD_STATE_IDLE 3 250 50 1000 1050"
  have r: "determine_button ?K 0 = Some 3"
    by (rule three_buttons_0) simp
  have h1: "keypad_state ?K = KEYPAD_STATE_IDLE" by simp
  have h2: "3 = last_key ?K" by simp
  have h3: "0 < repeat_milliseconds ?K" by simp
  have h4: "repeating_timestamp ?K + word_of_int (repeat_milliseconds ?K) < 1301" by simp
  from repeat_updates_only_anchor [OF r h1 h2 h3 h4, of 1301, THEN conjunct1]
  show ?thesis
    by (simp add: sketch_state_def)
qed

text \<open>
  Claim C7. With a repeat time of 0 there are no repeats. In the state \<open>IDLE\<close> a poll
  whose reading equals \<open>last_key\<close> returns \<open>- 1\<close> and changes nothing, whatever the clock
  reading is; so does every poll of a run in which that key is held; and after the poll
  that accepts a key, a run in which the key is held returns \<open>- 1\<close> at every poll.
\<close>

theorem repeat_disabled:
  assumes "repeat_milliseconds this = 0"
  shows "(keypad_state this = KEYPAD_STATE_IDLE \<and>
      determine_button this s = Some (last_key this)
      \<longrightarrow> read_key this s now now' = Some (- 1, this)) \<and>
    (keypad_state this = KEYPAD_STATE_IDLE \<and> held this (last_key this) cs
      \<longrightarrow> run this cs = Some (replicate (length cs) (- 1), this)) \<and>
    (keypad_state this = KEYPAD_STATE_DEBOUNCING \<and>
     debounce_timestamp this + word_of_int (debounce_milliseconds this) < now \<and>
     determine_button this s = Some r \<and> held this r cs
      \<longrightarrow> run this (Poll s now now' # cs) =
        Some (r # replicate (length cs) (- 1),
              this\<lparr>last_key := r, repeating_timestamp := now',
                   keypad_state := KEYPAD_STATE_IDLE\<rparr>))"
proof (intro conjI impI; elim conjE)
  assume "keypad_state this = KEYPAD_STATE_IDLE"
    and "determine_button this s = Some (last_key this)"
  then show "read_key this s now now' = Some (- 1, this)"
    using assms by (intro read_key_steady) simp_all
next
  assume "keypad_state this = KEYPAD_STATE_IDLE" and "held this (last_key this) cs"
  with assms show "run this cs = Some (replicate (length cs) (- 1), this)"
    by (intro run_steady)
next
  let ?K = "this\<lparr>last_key := r, repeating_timestamp := now',
           keypad_state := KEYPAD_STATE_IDLE\<rparr>"
  assume "keypad_state this = KEYPAD_STATE_DEBOUNCING"
    and "debounce_timestamp this + word_of_int (debounce_milliseconds this) < now"
    and r: "determine_button this s = Some r"
    and h: "held this r cs"
  then have 1: "read_key this s now now' = Some (r, ?K)"
    by (intro read_key_accept)
  have "determine_button ?K = determine_button this"
    by (rule ext, rule determine_button_cong) simp
  then have "reads ?K k = reads this k" for k
    by (intro ext) (case_tac x; simp)
  with h have "held ?K (last_key ?K) cs"
    by (simp add: held_def)
  then have "run ?K cs = Some (replicate (length cs) (- 1), ?K)"
    using assms by (intro run_steady) simp_all
  with 1 show "run this (Poll s now now' # cs) = Some (r # replicate (length cs) (- 1), ?K)"
    by (rule run_PollI)
qed

theorem repeat_disabled_witness:
  "read_key (sketch_state 3 KEYPAD_STATE_IDLE 3 0 50 1000 1051) 0 5000 5000 =
     Some (- 1, sketch_state 3 KEYPAD_STATE_IDLE 3 0 50 1000 1051) \<and>
   run (sketch_state 3 KEYPAD_STATE_IDLE 3 0 50 1000 1051)
       [Poll 0 2000 2000, Poll 0 4000000000 4000000000] =
     Some ([- 1, - 1], sketch_state 3 KEYPAD_STATE_IDLE 3 0 50 1000 1051) \<and>
   run (sketch_state 3 KEYPAD_STATE_DEBOUNCING (- 1) 0 50 1000 0)
       [Poll 0 1051 1051, Poll 0 2000 2000, Poll 0 4000000000 4000000000] =
     Some ([3, - 1, - 1], sketch_state 3 KEYPAD_STATE_IDLE 3 0 50 1000 1051)"
proof -
  let ?K = "sketch_state 3 KEYPAD_STATE_IDLE 3 0 50 1000 1051"
  let ?D = "sketch_state 3 KEYPAD_STATE_DEBOUNCING (- 1) 0 50 1000 0"
  let ?cs = "[Poll 0 2000 2000, Poll 0 4000000000 4000000000]"
  have r: "determine_button ?K 0 = Some 3" "determine_button ?D 0 = Some 3"
    by (rule three_buttons_0, simp)+
  have h: "repeat_milliseconds ?K = 0" "repeat_milliseconds ?D = 0"
    by simp_all
  have held: "held ?K (last_key ?K) ?cs" "held ?D 3 ?cs"
    by (simp_all add: held_def r)
  have "read_key ?K 0 5000 5000 = Some (- 1, ?K)"
    using repeat_disabled [OF h(1), of 0 5000 5000 ?cs 3, THEN conjunct1]
    by (simp add: r)
  moreover have "run ?K ?cs = Some ([- 1, - 1], ?K)"
    using repeat_disabled [OF h(1), of 0 5000 5000 ?cs 3, THEN conjunct2, THEN conjunct1]
      held(1)
    by simp
  moreover have "run ?D (Poll 0 1051 1051 # ?cs) = Some ([3, - 1, - 1], ?K)"
    using repeat_disabled [OF h(2), of 0 1051 1051 ?cs 3, THEN conjunct2, THEN conjunct2]
      held(2) r(2)
    by (simp add: sketch_state_def)
  ultimately show ?thesis
    by simp
qed

text \<open>
  Claim C4, as amended. After any run of polls and setter calls on an object constructed
  with at least one button, \<open>last_key\<close> is \<open>- 1\<close> or a value that \<open>determine_button\<close>
  returns for the sample of one of the polls, and it is at most \<open>number_buttons\<close>.
\<close>

theorem last_key_bounded:
  assumes "1 \<le> n" and "run (construct p n t0) cs = Some (keys, this')"
  shows "last_key this' \<le> n \<and>
    (last_key this' = - 1 \<or>
     Some (last_key this') \<in> determine_button (construct p n t0) ` set (samples cs))"
proof -
  let ?K = "construct p n t0"
  have n: "number_buttons ?K = n" and k: "last_key ?K = - 1"
    by (simp_all add: construct_simps)
  have "r \<le> n" if "determine_button ?K s = Some r" for s r
    using determine_button_le [of ?K s r] that assms(1) n by simp
  with run_last_key [OF assms(2)] assms(1) show ?thesis
    unfolding k by (auto simp add: image_iff)
qed

theorem last_key_bounded_witness:
  "(1 :: int) \<le> 3 \<and>
   run (construct 14 3 0) [Poll 0 0 0, Poll 0 100 100] =
     Some ([- 1, 3], sketch_state 3 KEYPAD_STATE_IDLE 3 0 50 0 100) \<and>
   last_key (sketch_state 3 KEYPAD_STATE_IDLE 3 0 50 0 100) \<le> 3"
  using last_key_bounded [OF _ run_sample_0] run_sample_0 by simp

text \<open>
  The claim as stated fails: \<open>last_key\<close> leaves the set \<open>{- 1, \<dots>, number_buttons - 1}\<close>.
  With three buttons the sample 0 reads as key 3, which the second poll accepts.
\<close>

theorem last_key_counterexample:
  "run (construct 14 3 0) [Poll 0 0 0, Poll 0 100 100] =
     Some ([- 1, 3], sketch_state 3 KEYPAD_STATE_IDLE 3 0 50 0 100) \<and>
   last_key (sketch_state 3 KEYPAD_STATE_IDLE 3 0 50 0 100) \<notin> {- 1 .. 3 - 1}"
  using run_sample_0 by simp


section \<open>The resolver\<close>

text \<open>
  Claim C2 (the code departs from it). The spec's resolver divides the voltage by the
  supply voltage before it enters the position \<open>(1 - v) * n + v\<close>; the code uses the
  voltage in volts. With three buttons and the sample 512, half the supply voltage, the
  spec's position rounds to button 2, the code's to \<open>- 2\<close>.
\<close>

theorem voltage_not_normalised:
  "determine_button (construct 14 3 0) 512 = Some (- 2) \<and> spec_resolver 3 512 = 2"
proof -
  have "determine_button (construct 14 3 0) 512 = Some (- 2)"
    by (simp add: construct_simps determine_button_eval)
  moreover have "spec_resolver 3 512 = 2"
    by (simp add: spec_resolver_def round_half_away_def)
  ultimately show ?thesis ..
qed




text \<open>
  Claim C5 (the code departs from it). At the sample 1023, full voltage, and 1 to
  \<open>2 ^ 22\<close> buttons the position is \<open>5 - 4 * n\<close>, which is at most 1:
  \<open>determine_button\<close> returns it where it fits an \<open>int\<close>, and never returns \<open>- 1\<close>. The
  test \<open>button > number_buttons\<close> for full voltage does not succeed.
\<close>

theorem full_voltage_reading:
  assumes "1 \<le> number_buttons this" and "number_buttons this \<le> 4194304"
  shows "determine_button this 1023 =
      (if number_buttons this \<le> 8193 then Some (5 - 4 * number_buttons this) else None) \<and>
    determine_button this 1023 \<noteq> Some (- 1)"
proof -
  define n where "n = number_buttons this"
  have n: "1 \<le> n" "n \<le> 4194304"
    using assms by (simp_all add: n_def)
  have 1: "fsub 1 5 = of_int (- 4)"
    using fl32_of_int [of "- 4"] by (simp add: fsub_def)
  have 2: "float_of_int n = of_int n"
    using n by (intro float_of_int_small) simp
  have 3: "fmul (of_int (- 4)) (of_int n) = of_int (- 4 * n)"
    using fl32_of_int [of "- 4 * n"] n by (simp add: fmul_def)
  have 4: "fadd (of_int (- 4 * n)) 5 = of_int (5 - 4 * n)"
    using fl32_of_int [of "5 - 4 * n"] n by (simp add: fadd_def)
  have "button_approx this 1023 = of_int (5 - 4 * n)"
    unfolding button_approx_def Let_def voltage_of_full n_def [symmetric] 1 2 3 4 ..
  then have "round_half_away (button_approx this 1023) = 5 - 4 * n"
    by (simp only: round_half_away_of_int)
  then have "button_rounded this 1023 = (if n \<le> 8193 then Some (5 - 4 * n) else None)"
    using n(1) by (simp add: button_rounded_alt INT_MIN_def INT_MAX_def)
  with n(1) have "determine_button this 1023 =
      (if n \<le> 8193 then Some (5 - 4 * n) else None)"
    by (simp add: determine_button_def n_def)
  moreover have "5 - 4 * n \<noteq> - 1"
    by presburger
  ultimately show ?thesis
    by (simp add: n_def)
qed

theorem full_voltage_reading_witness:
  "determine_button (sketch_state 3 KEYPAD_STATE_IDLE (- 1) 0 50 0 0) 1023 = Some (- 7)"
  using full_voltage_reading [of "sketch_state 3 KEYPAD_STATE_IDLE (- 1) 0 50 0 0"] by simp

text \<open>
  Claim C3 (the code departs from it). With three buttons the sample 700 reads as
  \<open>- 4\<close>, which is neither a button in \<open>0..3\<close> nor \<open>- 1\<close>.
\<close>

theorem negative_reading:
  "determine_button (construct 14 3 0) 700 = Some (- 4) \<and>
   (- 4 :: int) \<notin> insert (- 1) {0 .. 3}"
proof -
  have "determine_button (construct 14 3 0) 700 = Some (- 4)"
    by (simp add: construct_simps determine_button_eval)
  then show ?thesis
    by simp
qed

end
